theory Spec2Isabelle
  imports Main
begin

section \<open>The coordinator: server.py\<close>

subsection \<open>Constants and global state\<close>

definition TARGET_HASH :: string where
  "TARGET_HASH = ''EC9C0F7EDCC18A98B1F31853B1813301''"

definition START_NUMBER :: int where
  "START_NUMBER = 0"

definition END_NUMBER :: int where
  "END_NUMBER = 1 * 10 ^ 10 - 1"

definition BLOCK_SIZE_PER_CORE :: int where
  "BLOCK_SIZE_PER_CORE = 200000"

text \<open>The dictionary \<^verbatim>\<open>{'start': start, 'end': end}\<close> built by \<^verbatim>\<open>assign_work\<close>.\<close>

record work =
  w_start :: int
  w_end :: int

text \<open>An entry \<^verbatim>\<open>{'conn': conn, 'cores': client_cores}\<close> of the list \<^verbatim>\<open>clients\<close>.\<close>

record 'c client =
  conn :: 'c
  cores :: int

text \<open>The messages the server writes to a connection.\<close>

datatype reply = Stop | No_work | Work int int string

text \<open>The messages a connection handler decodes: the value of \<^verbatim>\<open>message['type']\<close>
  with the fields the handler reads. \<^verbatim>\<open>message.get('cores', 1)\<close> tolerates a missing
  field, \<^verbatim>\<open>message['number']\<close> does not; \<open>No_type\<close> is a message without the key
  \<^verbatim>\<open>'type'\<close>, \<open>Other_type\<close> one whose type is none of the three.\<close>

datatype 'v message =
  Register "int option" | Request_work | Found "'v option" | Other_type | No_type

datatype error = KeyError | ZeroDivisionError

text \<open>The module's global variables. Two fields are added to make effects explicit:
  \<open>sent\<close> logs every call of \<^verbatim>\<open>send_message\<close> in order, and \<open>client_cores\<close> holds the
  local variable of that name of each connection's \<^verbatim>\<open>handle_client\<close> thread.\<close>

record ('c, 'v) server =
  current_number :: int
  found :: bool
  found_number :: "'v option"
  clients :: "'c client list"
  assigned_work :: "'c \<rightharpoonup> work"
  sent :: "('c \<times> reply) list"
  client_cores :: "'c \<Rightarrow> int"

definition initial :: "('c, 'v) server" where
  "initial = \<lparr>current_number = START_NUMBER, found = False, found_number = None,
     clients = [], assigned_work = Map.empty, sent = [], client_cores = (\<lambda>_. 1)\<rparr>"

subsection \<open>Operations\<close>

definition send_message :: "'c \<Rightarrow> reply \<Rightarrow> ('c, 'v) server \<Rightarrow> ('c, 'v) server" where
  "send_message c m s = s\<lparr>sent := sent s @ [(c, m)]\<rparr>"

definition register_client ::
  "'c \<Rightarrow> int option \<Rightarrow> ('c, 'v) server \<Rightarrow> int \<times> ('c, 'v) server" where
  "register_client c message_cores s =
     (let k = (case message_cores of None \<Rightarrow> 1 | Some n \<Rightarrow> n)
      in (k, s\<lparr>clients := clients s @ [\<lparr>conn = c, cores = k\<rparr>]\<rparr>))"

definition assign_work ::
  "'c \<Rightarrow> int \<Rightarrow> ('c, 'v) server \<Rightarrow> work option \<times> ('c, 'v) server" where
  "assign_work c k s =
     (let s1 = s\<lparr>assigned_work := (assigned_work s)(c := None)\<rparr> in
      if found s1 then (None, send_message c Stop s1)
      else
        let block_size = BLOCK_SIZE_PER_CORE * k;
            st = current_number s1;
            en = min (current_number s1 + block_size - 1) END_NUMBER
        in if st > END_NUMBER then (None, send_message c No_work s1)
           else
             let w = \<lparr>w_start = st, w_end = en\<rparr>;
                 s2 = s1\<lparr>current_number := en + 1,
                         assigned_work := (assigned_work s1)(c \<mapsto> w)\<rparr>
             in (Some w, send_message c (Work (w_start w) (w_end w) TARGET_HASH) s2))"

definition notify_all_clients :: "('c, 'v) server \<Rightarrow> ('c, 'v) server" where
  "notify_all_clients s = foldl (\<lambda>t cl. send_message (conn cl) Stop t) s (clients s)"

text \<open>\<^verbatim>\<open>handle_found\<close>: the second argument is \<^verbatim>\<open>message['number']\<close>, \<open>None\<close> when the
  key is missing. The lookup happens after \<^verbatim>\<open>found = True\<close>, so the \<^verbatim>\<open>KeyError\<close>
  leaves the flag set and skips the notification.\<close>

definition handle_found ::
  "'c \<Rightarrow> 'v option \<Rightarrow> ('c, 'v) server \<Rightarrow> error option \<times> ('c, 'v) server" where
  "handle_found c number s =
     (let s1 = s\<lparr>assigned_work := (assigned_work s)(c := None)\<rparr> in
      if \<not> found s1 then
        (case number of
           None \<Rightarrow> (Some KeyError, s1\<lparr>found := True\<rparr>)
         | Some v \<Rightarrow> (None, notify_all_clients (s1\<lparr>found := True, found_number := Some v\<rparr>)))
      else (None, notify_all_clients s1))"

definition cleanup_client :: "'c \<Rightarrow> ('c, 'v) server \<Rightarrow> ('c, 'v) server" where
  "cleanup_client c s =
     s\<lparr>assigned_work := (assigned_work s)(c := None),
       clients := filter (\<lambda>cl. conn cl \<noteq> c) (clients s)\<rparr>"

subsection \<open>The connection handler\<close>

text \<open>What happens on a connection: its handler thread starts, a message arrives, or the
  peer closes. An exception inside the loop ends the handler through \<^verbatim>\<open>cleanup_client\<close>.\<close>

datatype ('c, 'v) event = Connected 'c | Received 'c "'v message" | Closed 'c

fun handle_client :: "('c, 'v) event \<Rightarrow> ('c, 'v) server \<Rightarrow> ('c, 'v) server" where
  "handle_client (Connected c) s = s\<lparr>client_cores := (client_cores s)(c := 1)\<rparr>"
| "handle_client (Received c (Register mc)) s =
     (case register_client c mc s of
        (k, s') \<Rightarrow> s'\<lparr>client_cores := (client_cores s')(c := k)\<rparr>)"
| "handle_client (Received c Request_work) s = snd (assign_work c (client_cores s c) s)"
| "handle_client (Received c (Found number)) s =
     (case handle_found c number s of
        (None, s') \<Rightarrow> s'
      | (Some err, s') \<Rightarrow> cleanup_client c s')"
| "handle_client (Received c Other_type) s = s"
| "handle_client (Received c No_type) s = cleanup_client c s"
| "handle_client (Closed c) s = cleanup_client c s"

text \<open>The precondition on registration messages that declared parallelism is at least
  one (an absent field defaults to one).\<close>

fun parallelism_ok :: "('c, 'v) event \<Rightarrow> bool" where
  "parallelism_ok (Received c (Register (Some k))) = (1 \<le> k)"
| "parallelism_ok ev = True"

definition run :: "('c, 'v) event list \<Rightarrow> ('c, 'v) server \<Rightarrow> ('c, 'v) server" where
  "run evs s = foldl (\<lambda>t ev. handle_client ev t) s evs"

text \<open>A sequence of \<^verbatim>\<open>assign_work\<close> calls, each with its connection and core count: the
  results in call order, and the final state.\<close>

fun assign_all ::
  "('c \<times> int) list \<Rightarrow> ('c, 'v) server \<Rightarrow> work option list \<times> ('c, 'v) server" where
  "assign_all [] s = ([], s)"
| "assign_all ((c, k) # calls) s =
     (case assign_work c k s of
        (r, s') \<Rightarrow> (case assign_all calls s' of (rs, s'') \<Rightarrow> (r # rs, s'')))"

text \<open>The set of candidates a block covers, and the blocks issued by a sequence of calls.\<close>

definition block_set :: "work \<Rightarrow> int set" where
  "block_set w = {w_start w .. w_end w}"

definition issued :: "work option list \<Rightarrow> work list" where
  "issued rs = [w. Some w \<leftarrow> rs]"

section \<open>The worker: client.py\<close>

subsection \<open>Formatting and hashing\<close>

definition digit_char :: "nat \<Rightarrow> char" where
  "digit_char d = ''0123456789'' ! d"

fun decimal :: "nat \<Rightarrow> string" where
  "decimal n = (if n < 10 then [digit_char n] else decimal (n div 10) @ [digit_char (n mod 10)])"

declare decimal.simps [simp del]

text \<open>The format \<^verbatim>\<open>f"{number:010d}"\<close>: zero-padded to width ten, the sign counted in
  the width.\<close>

definition format_010d :: "int \<Rightarrow> string" where
  "format_010d number =
     (if number < 0
      then CHR ''-'' # replicate (9 - length (decimal (nat (- number)))) CHR ''0''
             @ decimal (nat (- number))
      else replicate (10 - length (decimal (nat number))) CHR ''0'' @ decimal (nat number))"

definition upper_char :: "char \<Rightarrow> char" where
  "upper_char c =
     (case map_of (zip ''abcdefghijklmnopqrstuvwxyz'' ''ABCDEFGHIJKLMNOPQRSTUVWXYZ'') c of
        Some u \<Rightarrow> u | None \<Rightarrow> c)"

definition upper :: "string \<Rightarrow> string" where
  "upper s = map upper_char s"

subsection \<open>The search task\<close>

text \<open>\<^verbatim>\<open>worker\<close>: the loop over \<^verbatim>\<open>range(start, end + 1)\<close>, started at \<open>number\<close>. The
  first argument stands for \<^verbatim>\<open>hashlib.md5(s.encode()).hexdigest()\<close>, a library function.
  The result is what the task puts on the result queue, \<open>None\<close> when it puts nothing.\<close>

function worker :: "(string \<Rightarrow> string) \<Rightarrow> int \<Rightarrow> int \<Rightarrow> string \<Rightarrow> string option" where
  "worker md5_hexdigest number endn target_hash =
     (if number \<le> endn then
        (let num_str = format_010d number;
             hash_result = upper (md5_hexdigest num_str)
         in if hash_result = target_hash then Some num_str
            else worker md5_hexdigest (number + 1) endn target_hash)
      else None)"
  by pat_completeness auto
termination
  by (relation "measure (\<lambda>(h, number, endn, t). nat (endn + 1 - number))") auto

declare worker.simps [simp del]

subsection \<open>Splitting a block over the local processes\<close>

text \<open>The sub-ranges computed in \<^verbatim>\<open>process_work\<close>; \<^verbatim>\<open>total // cores\<close> raises on zero.\<close>

definition process_ranges :: "int \<Rightarrow> int \<Rightarrow> int \<Rightarrow> error + (int \<times> int) list" where
  "process_ranges start endn ncores =
     (let total = endn - start + 1 in
      if ncores = 0 then Inl ZeroDivisionError
      else
        let per_process = total div ncores
        in Inr (map (\<lambda>i. (start + i * per_process,
                           if i < ncores - 1 then start + (i + 1) * per_process - 1 else endn))
                    [0 .. ncores - 1]))"

text \<open>The report sent upward: \<^verbatim>\<open>if found_number:\<close> holds for a non-empty string.\<close>

definition found_message :: "string option \<Rightarrow> string message option" where
  "found_message fn =
     (case fn of None \<Rightarrow> None
      | Some n \<Rightarrow> if n = [] then None else Some (Found (Some n)))"


subsection \<open>The values a pool of search tasks reports\<close>


section \<open>Notions used in the statements\<close>

text \<open>A list of ranges is a chain from \<open>a\<close> to \<open>b\<close> when the first starts at \<open>a\<close>, each
  next one starts right after its predecessor ends, no range has a negative length, and
  the last ends right before \<open>b\<close>.\<close>

fun chain :: "int \<Rightarrow> (int \<times> int) list \<Rightarrow> int \<Rightarrow> bool" where
  "chain a [] b = (a = b)"
| "chain a ((lo, hi) # rs) b = (lo = a \<and> a \<le> hi + 1 \<and> chain (hi + 1) rs b)"

text \<open>A block as a pair of bounds.\<close>

definition span :: "work \<Rightarrow> int \<times> int" where
  "span w = (w_start w, w_end w)"


text \<open>A sequence of found reports as handler events, and the fan-out that
  \<^verbatim>\<open>notify_all_clients\<close> writes in a given state.\<close>

definition reports :: "('c \<times> 'v) list \<Rightarrow> ('c, 'v) event list" where
  "reports cvs = map (\<lambda>(c, v). Received c (Found (Some v))) cvs"

definition broadcast :: "('c, 'v) server \<Rightarrow> ('c \<times> reply) list" where
  "broadcast s = map (\<lambda>cl. (conn cl, Stop)) (clients s)"


text \<open>Two reachable states used as examples: one worker holding the first block, and two
  registered workers.\<close>

definition first_block_out :: "(nat, string) server" where
  "first_block_out =
     run [Connected 1, Received 1 (Register (Some 1)), Received 1 Request_work] initial"

definition two_registered :: "(nat, string) server" where
  "two_registered =
     run [Connected 1, Received 1 (Register (Some 4)),
          Connected 2, Received 2 (Register (Some 4))] initial"

text \<open>A stand-in for the digest function in examples: it gives the lower-case form of
  \<open>TARGET_HASH\<close> for the string of 42 and another lower-case digest for everything else.\<close>

definition example_digest :: "string \<Rightarrow> string" where
  "example_digest s =
     (if s = ''0000000042'' then ''ec9c0f7edcc18a98b1f31853b1813301''
      else ''d41d8cd98f00b204e9800998ecf8427e'')"

text \<open>Reading a string of decimal digits back as a number.\<close>

definition digit_val :: "char \<Rightarrow> nat" where
  "digit_val c = (case map_of (zip ''0123456789'' [0, 1, 2, 3, 4, 5, 6, 7, 8, 9]) c of
                    Some d \<Rightarrow> d | None \<Rightarrow> 0)"

definition digits_value :: "string \<Rightarrow> nat" where
  "digits_value s = foldl (\<lambda>a c. 10 * a + digit_val c) 0 s"

section \<open>Properties of the coordinator\<close>

subsection \<open>Basic facts\<close>

lemma foldl_send_stop:
  "foldl (\<lambda>t cl. send_message (conn cl) Stop t) s cls
     = s\<lparr>sent := sent s @ map (\<lambda>cl. (conn cl, Stop)) cls\<rparr>"
  by (induction cls arbitrary: s) (simp_all add: send_message_def)

lemma notify_all_clients_eq:
  "notify_all_clients s = s\<lparr>sent := sent s @ map (\<lambda>cl. (conn cl, Stop)) (clients s)\<rparr>"
  by (simp add: notify_all_clients_def foldl_send_stop)

lemma run_Nil: "run [] s = s"
  by (simp add: run_def)

lemma run_Cons: "run (ev # evs) s = run evs (handle_client ev s)"
  by (simp add: run_def)

lemma run_append: "run (evs1 @ evs2) s = run evs2 (run evs1 s)"
  by (simp add: run_def)

subsection \<open>The outcome is set once\<close>

lemma found_handle_client:
  "found s \<Longrightarrow> found (handle_client ev s) \<and> found_number (handle_client ev s) = found_number s"
proof (cases ev)
  case (Connected c)
  assume "found s" then show ?thesis using Connected by simp
next
  case (Received c m)
  assume "found s" then show ?thesis using Received
    by (cases m)
       (simp_all add: register_client_def assign_work_def send_message_def Let_def
          handle_found_def notify_all_clients_eq cleanup_client_def)
next
  case (Closed c)
  assume "found s" then show ?thesis using Closed by (simp add: cleanup_client_def)
qed

lemma found_run:
  "found s \<Longrightarrow> found (run evs s) \<and> found_number (run evs s) = found_number s"
proof (induction evs arbitrary: s)
  case Nil
  then show ?case by (simp add: run_Nil)
next
  case (Cons ev evs)
  from Cons.prems have "found (handle_client ev s)"
    and "found_number (handle_client ev s) = found_number s"
    using found_handle_client by blast+
  with Cons.IH [of "handle_client ev s"] show ?case by (simp add: run_Cons)
qed

text \<open>C3: in a state where nothing has been found, \<^verbatim>\<open>handle_found\<close> with a value \<open>v\<close>
  sets \<open>found\<close> and stores \<open>v\<close> in \<open>found_number\<close>; a second report with another value
  \<open>v'\<close> leaves \<open>v\<close> in place, and after every further sequence of events the flag is still
  set and the stored value is still \<open>v\<close>.\<close>

theorem found_is_permanent:
  assumes "\<not> found s"
  shows "found (snd (handle_found c (Some v) s))
       \<and> found_number (snd (handle_found c (Some v) s)) = Some v
       \<and> found_number (snd (handle_found c' (Some v') (snd (handle_found c (Some v) s)))) = Some v
       \<and> (\<forall>evs. found (run evs (snd (handle_found c (Some v) s)))
              \<and> found_number (run evs (snd (handle_found c (Some v) s))) = Some v)"
proof -
  let ?s = "snd (handle_found c (Some v) s)"
  have f: "found ?s" and n: "found_number ?s = Some v"
    using assms by (simp_all add: handle_found_def notify_all_clients_eq)
  have "found_number (snd (handle_found c' (Some v') ?s)) = Some v"
    using f n by (simp add: handle_found_def [of c' _ ?s] notify_all_clients_eq)
  moreover have "\<forall>evs. found (run evs ?s) \<and> found_number (run evs ?s) = Some v"
    using found_run [OF f] n by simp
  ultimately show ?thesis using f n by blast
qed

theorem found_is_permanent_witness:
  "\<not> found (initial :: (nat, string) server)
   \<and> found (snd (handle_found 1 (Some ''0000000042'') (initial :: (nat, string) server)))
   \<and> found_number (snd (handle_found 2 (Some ''0000000007'')
        (snd (handle_found 1 (Some ''0000000042'') (initial :: (nat, string) server)))))
       = Some ''0000000042''"
proof -
  have h: "\<not> found (initial :: (nat, string) server)"
    by (simp add: initial_def)
  from found_is_permanent [OF h, of 1 "''0000000042''" 2 "''0000000007''"] h
  show ?thesis by blast
qed

subsection \<open>Replies of \<^verbatim>\<open>assign_work\<close> without a block\<close>

text \<open>C4: once \<open>found\<close> is set, every call of \<^verbatim>\<open>assign_work\<close>, for any connection, any
  core count and any cursor position, returns no work, sends exactly the message
  \<open>stop\<close> to the caller and leaves the cursor alone.\<close>

theorem stop_after_found:
  assumes "found s"
  shows "fst (assign_work c k s) = None
       \<and> sent (snd (assign_work c k s)) = sent s @ [(c, Stop)]
       \<and> current_number (snd (assign_work c k s)) = current_number s"
  using assms by (simp add: assign_work_def send_message_def)

theorem stop_after_found_witness:
  "found (snd (handle_found 1 (Some ''0000000042'') (initial :: (nat, string) server)))
   \<and> fst (assign_work 2 4
        (snd (handle_found 1 (Some ''0000000042'') (initial :: (nat, string) server)))) = None
   \<and> sent (snd (assign_work 2 4
        (snd (handle_found 1 (Some ''0000000042'') (initial :: (nat, string) server)))))
       = [(2, Stop)]"
proof -
  have h: "found (snd (handle_found 1 (Some ''0000000042'') (initial :: (nat, string) server)))"
    by (simp add: handle_found_def initial_def notify_all_clients_eq)
  have e: "sent (snd (handle_found 1 (Some ''0000000042'') (initial :: (nat, string) server)))
             = []"
    by (simp add: handle_found_def initial_def notify_all_clients_eq)
  from stop_after_found [OF h, of 2 4] h e show ?thesis by simp
qed

text \<open>C5: when nothing has been found and the cursor is beyond \<open>END_NUMBER\<close>, every call of
  \<^verbatim>\<open>assign_work\<close> returns no work, sends exactly the message \<open>no_work\<close> to the caller,
  leaves the cursor where it is, leaves the caller without an assignment and does not
  touch the assignments of the other connections.\<close>

theorem no_work_after_exhaustion:
  assumes "\<not> found s" and "current_number s > END_NUMBER"
  shows "fst (assign_work c k s) = None
       \<and> sent (snd (assign_work c k s)) = sent s @ [(c, No_work)]
       \<and> current_number (snd (assign_work c k s)) = current_number s
       \<and> assigned_work (snd (assign_work c k s)) c = None
       \<and> (\<forall>c'. c' \<noteq> c \<longrightarrow> assigned_work (snd (assign_work c k s)) c' = assigned_work s c')"
  using assms by (simp add: assign_work_def send_message_def Let_def)

theorem no_work_after_exhaustion_witness:
  "\<not> found ((initial :: (nat, string) server)\<lparr>current_number := END_NUMBER + 1\<rparr>)
   \<and> current_number ((initial :: (nat, string) server)\<lparr>current_number := END_NUMBER + 1\<rparr>)
       > END_NUMBER
   \<and> fst (assign_work 1 4 ((initial :: (nat, string) server)\<lparr>current_number := END_NUMBER + 1\<rparr>))
       = None
   \<and> sent (snd (assign_work 1 4
        ((initial :: (nat, string) server)\<lparr>current_number := END_NUMBER + 1\<rparr>)))
       = [(1, No_work)]"
proof -
  let ?s = "(initial :: (nat, string) server)\<lparr>current_number := END_NUMBER + 1\<rparr>"
  have h1: "\<not> found ?s" by (simp add: initial_def)
  have h2: "current_number ?s > END_NUMBER" by simp
  have e: "sent ?s = []" by (simp add: initial_def)
  from no_work_after_exhaustion [OF h1 h2, of 1 4] h1 h2 e show ?thesis by simp
qed

subsection \<open>The cursor only moves forward\<close>

lemma assign_work_cursor:
  assumes "0 \<le> k"
  shows "current_number s \<le> current_number (snd (assign_work c k s))"
    and "current_number s \<le> END_NUMBER + 1
           \<Longrightarrow> current_number (snd (assign_work c k s)) \<le> END_NUMBER + 1"
    and "client_cores (snd (assign_work c k s)) = client_cores s"
  using assms
  by (auto simp add: assign_work_def send_message_def Let_def BLOCK_SIZE_PER_CORE_def min_def)

lemma handle_found_cursor:
  "current_number (snd (handle_found c n s)) = current_number s"
  "client_cores (snd (handle_found c n s)) = client_cores s"
  by (simp_all add: handle_found_def notify_all_clients_eq Let_def split: option.splits)

lemma cleanup_client_cursor:
  "current_number (cleanup_client c s) = current_number s"
  "client_cores (cleanup_client c s) = client_cores s"
  by (simp_all add: cleanup_client_def)

lemma handle_client_cursor:
  assumes "current_number s \<le> END_NUMBER + 1" and "\<forall>c. 1 \<le> client_cores s c"
    and "parallelism_ok ev"
  shows "current_number s \<le> current_number (handle_client ev s)
       \<and> current_number (handle_client ev s) \<le> END_NUMBER + 1
       \<and> (\<forall>c. 1 \<le> client_cores (handle_client ev s) c)"
proof (cases ev)
  case (Connected c)
  then show ?thesis using assms by simp
next
  case (Closed c)
  then show ?thesis using assms by (simp add: cleanup_client_cursor)
next
  case (Received c m)
  show ?thesis
  proof (cases m)
    case (Register mc)
    then show ?thesis using assms Received
      by (cases mc) (simp_all add: register_client_def)
  next
    case Request_work
    have "0 \<le> client_cores s c" using assms(2) by (meson order_trans zero_le_one)
    from assign_work_cursor [OF this, where s = s and c = c] assms(1,2) show ?thesis
      using Received Request_work by simp
  next
    case (Found n)
    obtain e s' where hf: "handle_found c n s = (e, s')" by (cases "handle_found c n s")
    have "current_number s' = current_number s" "client_cores s' = client_cores s"
      using handle_found_cursor [of c n s] hf by simp_all
    then show ?thesis using assms Received Found hf
      by (cases e) (simp_all add: cleanup_client_cursor)
  next
    case Other_type
    then show ?thesis using assms Received by simp
  next
    case No_type
    then show ?thesis using assms Received by (simp add: cleanup_client_cursor)
  qed
qed

lemma run_cursor:
  assumes "current_number s \<le> END_NUMBER + 1" and "\<forall>c. 1 \<le> client_cores s c"
    and "\<forall>ev\<in>set evs. parallelism_ok ev"
  shows "current_number s \<le> current_number (run evs s)
       \<and> current_number (run evs s) \<le> END_NUMBER + 1
       \<and> (\<forall>c. 1 \<le> client_cores (run evs s) c)"
  using assms
proof (induction evs arbitrary: s)
  case Nil
  then show ?case by (simp add: run_Nil)
next
  case (Cons ev evs)
  have ok: "parallelism_ok ev" and rest: "\<forall>e\<in>set evs. parallelism_ok e"
    using Cons.prems(3) by simp_all
  note st = handle_client_cursor [OF Cons.prems(1,2) ok]
  from Cons.IH [of "handle_client ev s"] st rest
  show ?case by (simp add: run_Cons)
qed

text \<open>C9: start in a state whose cursor is at most \<open>END_NUMBER + 1\<close> and whose handlers all
  hold a core count of at least one, and let every registration declare at least one
  core. Then along every sequence of events (connect, register, request, found report,
  other messages, disconnect) the cursor never decreases, whatever prefix is compared
  with whatever extension, and it never exceeds \<open>END_NUMBER + 1\<close>.\<close>

theorem cursor_monotone_bounded:
  assumes "current_number s \<le> END_NUMBER + 1" and "\<forall>c. 1 \<le> client_cores s c"
    and "\<forall>ev\<in>set (evs1 @ evs2). parallelism_ok ev"
  shows "current_number (run evs1 s) \<le> current_number (run (evs1 @ evs2) s)
       \<and> current_number (run (evs1 @ evs2) s) \<le> END_NUMBER + 1"
proof -
  have a: "\<forall>ev\<in>set evs1. parallelism_ok ev" and b: "\<forall>ev\<in>set evs2. parallelism_ok ev"
    using assms(3) by simp_all
  note r1 = run_cursor [OF assms(1,2) a]
  from r1 have c1: "current_number (run evs1 s) \<le> END_NUMBER + 1"
    and c2: "\<forall>c. 1 \<le> client_cores (run evs1 s) c" by simp_all
  from run_cursor [OF c1 c2 b] show ?thesis by (simp add: run_append)
qed

theorem cursor_monotone_bounded_witness:
  "current_number (initial :: (nat, string) server) \<le> END_NUMBER + 1
   \<and> (\<forall>c. 1 \<le> client_cores (initial :: (nat, string) server) c)
   \<and> list_all parallelism_ok ([Connected 1, Received 1 (Register (Some 4))]
         @ [Received 1 Request_work, Closed 1] :: (nat, string) event list)
   \<and> current_number (run [Connected 1, Received 1 (Register (Some 4))]
        (initial :: (nat, string) server))
       \<le> current_number (run ([Connected 1, Received 1 (Register (Some 4))]
            @ [Received 1 Request_work, Closed 1]) (initial :: (nat, string) server))
   \<and> current_number (run ([Connected 1, Received 1 (Register (Some 4))]
            @ [Received 1 Request_work, Closed 1]) (initial :: (nat, string) server))
       \<le> END_NUMBER + 1"
proof -
  have h1: "current_number (initial :: (nat, string) server) \<le> END_NUMBER + 1"
    by (simp add: initial_def START_NUMBER_def END_NUMBER_def)
  have h2: "\<forall>c. 1 \<le> client_cores (initial :: (nat, string) server) c"
    by (simp add: initial_def)
  have h3: "\<forall>ev\<in>set ([Connected 1, Received 1 (Register (Some 4))]
                  @ [Received 1 Request_work, Closed (1::nat)]).
            parallelism_ok (ev :: (nat, string) event)"
    by simp
  have h4: "list_all parallelism_ok ([Connected 1, Received 1 (Register (Some 4))]
         @ [Received 1 Request_work, Closed 1] :: (nat, string) event list)"
    by simp
  from cursor_monotone_bounded [OF h1 h2 h3] h1 h2 h4 show ?thesis by blast
qed

subsection \<open>Blocks issued by a sequence of requests\<close>

lemma chain_le: "chain a rs b \<Longrightarrow> a \<le> b"
  by (induction a rs b rule: chain.induct) auto

lemma chain_append: "chain a rs b \<Longrightarrow> chain b rs' c \<Longrightarrow> chain a (rs @ rs') c"
  by (induction a rs b rule: chain.induct) auto

lemma chain_member: "chain a rs b \<Longrightarrow> (lo, hi) \<in> set rs \<Longrightarrow> a \<le> lo \<and> lo \<le> hi + 1 \<and> hi < b"
proof (induction a rs b rule: chain.induct)
  case (1 a b)
  then show ?case by simp
next
  case (2 a l h rs b)
  from "2.prems"(1) have c: "chain (h + 1) rs b" and ah: "a \<le> h + 1" and la: "l = a" by simp_all
  from chain_le [OF c] have hb: "h + 1 \<le> b" .
  show ?case
  proof (cases "(lo, hi) = (l, h)")
    case True
    then show ?thesis using ah la hb by simp
  next
    case False
    with "2.prems"(2) have "(lo, hi) \<in> set rs" by auto
    from "2.IH" [OF c this] ah show ?thesis by simp
  qed
qed

lemma chain_union: "chain a rs b \<Longrightarrow> (\<Union>(lo, hi)\<in>set rs. {lo..hi}) = {a..<b}"
proof (induction a rs b rule: chain.induct)
  case (1 a b)
  then show ?case by simp
next
  case (2 a l h rs b)
  from "2.prems" have c: "chain (h + 1) rs b" and ah: "a \<le> h + 1" and la: "l = a" by simp_all
  from chain_le [OF c] have hb: "h + 1 \<le> b" .
  have "{a..h} \<union> {h + 1..<b} = {a..<b}" using ah hb by auto
  with "2.IH" [OF c] la show ?case by simp
qed

lemma chain_disjoint:
  "chain a rs b \<Longrightarrow> i < j \<Longrightarrow> j < length rs
     \<Longrightarrow> {fst (rs ! i)..snd (rs ! i)} \<inter> {fst (rs ! j)..snd (rs ! j)} = {}"
proof (induction a rs b arbitrary: i j rule: chain.induct)
  case (1 a b)
  then show ?case by simp
next
  case (2 a l h rs b)
  from "2.prems"(1) have c: "chain (h + 1) rs b" by simp
  obtain j' where j: "j = Suc j'" using "2.prems"(2) by (cases j) simp_all
  with "2.prems"(3) have j'len: "j' < length rs" by simp
  show ?case
  proof (cases i)
    case 0
    have "(fst (rs ! j'), snd (rs ! j')) \<in> set rs" using j'len by simp
    from chain_member [OF c this] have "h + 1 \<le> fst (rs ! j')" by simp
    then show ?thesis using 0 j by auto
  next
    case (Suc i')
    with "2.prems"(2) j have "i' < j'" by simp
    from "2.IH" [OF c this j'len] show ?thesis using Suc j by simp
  qed
qed

lemma assign_work_step:
  assumes "0 \<le> k"
  shows "case fst (assign_work c k s) of
           None \<Rightarrow> current_number (snd (assign_work c k s)) = current_number s
         | Some w \<Rightarrow> w_start w = current_number s \<and> current_number s \<le> w_end w + 1
                     \<and> current_number (snd (assign_work c k s)) = w_end w + 1"
  using assms
  by (auto simp add: assign_work_def send_message_def Let_def BLOCK_SIZE_PER_CORE_def min_def)

lemma issued_Cons: "issued (r # rs) = (case r of None \<Rightarrow> issued rs | Some w \<Rightarrow> w # issued rs)"
  by (cases r) (simp_all add: issued_def)

lemma issued_Nil: "issued [] = []"
  by (simp add: issued_def)

lemma assign_all_Cons_fst:
  "fst (assign_all ((c, k) # calls) s)
     = fst (assign_work c k s) # fst (assign_all calls (snd (assign_work c k s)))"
  by (simp split: prod.splits)

lemma assign_all_Cons_snd:
  "snd (assign_all ((c, k) # calls) s) = snd (assign_all calls (snd (assign_work c k s)))"
  by (simp split: prod.splits)

lemma assign_all_chain:
  assumes "\<forall>x\<in>set calls. 0 \<le> snd x"
  shows "chain (current_number s) (map span (issued (fst (assign_all calls s))))
           (current_number (snd (assign_all calls s)))"
  using assms
proof (induction calls arbitrary: s)
  case Nil
  then show ?case by (simp add: issued_Nil)
next
  case (Cons x calls)
  obtain c k where x: "x = (c, k)" by (cases x)
  let ?r = "fst (assign_work c k s)" and ?s' = "snd (assign_work c k s)"
  have k: "0 \<le> k" and rest: "\<forall>x\<in>set calls. 0 \<le> snd x" using Cons.prems x by simp_all
  note ih = Cons.IH [OF rest, of ?s']
  note st = assign_work_step [OF k, of c s]
  show ?case
  proof (cases ?r)
    case None
    with st ih show ?thesis
      unfolding x assign_all_Cons_fst assign_all_Cons_snd by (simp add: issued_Cons)
  next
    case (Some w)
    with st ih show ?thesis
      unfolding x assign_all_Cons_fst assign_all_Cons_snd by (simp add: issued_Cons span_def)
  qed
qed

lemma assign_all_found: "found (snd (assign_all calls s)) = found s"
proof (induction calls arbitrary: s)
  case Nil
  then show ?case by simp
next
  case (Cons x calls)
  obtain c k where x: "x = (c, k)" by (cases x)
  have "found (snd (assign_work c k s)) = found s"
    by (simp add: assign_work_def send_message_def Let_def)
  with Cons.IH [of "snd (assign_work c k s)"] show ?case
    unfolding x assign_all_Cons_snd by simp
qed

lemma assign_all_nth:
  "i < length calls \<Longrightarrow>
     fst (assign_all calls s) ! i
       = fst (assign_work (fst (calls ! i)) (snd (calls ! i)) (snd (assign_all (take i calls) s)))"
proof (induction calls arbitrary: i s)
  case Nil
  then show ?case by simp
next
  case (Cons x calls)
  obtain c k where x: "x = (c, k)" by (cases x)
  show ?case
  proof (cases i)
    case 0
    then show ?thesis unfolding x assign_all_Cons_fst by simp
  next
    case (Suc i')
    with Cons.prems have "i' < length calls" by simp
    from Cons.IH [OF this, of "snd (assign_work c k s)"] show ?thesis
      unfolding x Suc assign_all_Cons_fst
      by (simp del: assign_all.simps add: assign_all_Cons_snd)
  qed
qed

lemma assign_work_block:
  assumes "\<not> found s"
  shows "fst (assign_work c k s)
           = (if current_number s > END_NUMBER then None
              else Some \<lparr>w_start = current_number s,
                         w_end = min (current_number s + BLOCK_SIZE_PER_CORE * k - 1) END_NUMBER\<rparr>)"
  using assms by (simp add: assign_work_def Let_def)

lemma assign_work_cursor_max:
  "current_number (snd (assign_work c k s)) \<le> max (current_number s) (END_NUMBER + 1)"
  by (simp add: assign_work_def send_message_def Let_def)

lemma assign_all_cursor_max:
  "current_number (snd (assign_all calls s)) \<le> max (current_number s) (END_NUMBER + 1)"
proof (induction calls arbitrary: s)
  case Nil
  then show ?case by simp
next
  case (Cons x calls)
  obtain c k where x: "x = (c, k)" by (cases x)
  from Cons.IH [of "snd (assign_work c k s)"] assign_work_cursor_max [of c k s]
  show ?case unfolding x assign_all_Cons_snd by simp
qed

text \<open>C1 (as amended): take any sequence of \<^verbatim>\<open>assign_work\<close> calls whose core counts are
  not negative, in a state where nothing has been found. Then (1) each call returns the
  block from the cursor at that moment to
  \<open>min (cursor + BLOCK_SIZE_PER_CORE * cores - 1) END_NUMBER\<close>, or nothing once the cursor
  is beyond \<open>END_NUMBER\<close>; (2) the issued blocks are pairwise disjoint; (3) their union is
  the interval from the initial cursor up to, but excluding, the final cursor; and (4) once
  the cursor has passed \<open>END_NUMBER\<close> the union is exactly the interval from the initial
  cursor to \<open>END_NUMBER\<close>.\<close>

theorem blocks_partition_keyspace:
  assumes "\<not> found s" and "\<forall>x\<in>set calls. 0 \<le> snd x"
  shows "(\<forall>i<length calls.
            fst (assign_all calls s) ! i
              = (if current_number (snd (assign_all (take i calls) s)) > END_NUMBER then None
                 else Some \<lparr>w_start = current_number (snd (assign_all (take i calls) s)),
                            w_end = min (current_number (snd (assign_all (take i calls) s))
                                          + BLOCK_SIZE_PER_CORE * snd (calls ! i) - 1)
                                        END_NUMBER\<rparr>))
       \<and> (\<forall>i j. i < j \<and> j < length (issued (fst (assign_all calls s)))
            \<longrightarrow> block_set (issued (fst (assign_all calls s)) ! i)
                  \<inter> block_set (issued (fst (assign_all calls s)) ! j) = {})
       \<and> (\<Union>w\<in>set (issued (fst (assign_all calls s))). block_set w)
            = {current_number s ..< current_number (snd (assign_all calls s))}
       \<and> (current_number (snd (assign_all calls s)) > END_NUMBER
            \<longrightarrow> (\<Union>w\<in>set (issued (fst (assign_all calls s))). block_set w)
                  = {current_number s .. END_NUMBER})"
proof -
  let ?ws = "issued (fst (assign_all calls s))"
  let ?c' = "current_number (snd (assign_all calls s))"
  note ch = assign_all_chain [OF assms(2), of s]
  have form: "\<forall>i<length calls.
            fst (assign_all calls s) ! i
              = (if current_number (snd (assign_all (take i calls) s)) > END_NUMBER then None
                 else Some \<lparr>w_start = current_number (snd (assign_all (take i calls) s)),
                            w_end = min (current_number (snd (assign_all (take i calls) s))
                                          + BLOCK_SIZE_PER_CORE * snd (calls ! i) - 1)
                                        END_NUMBER\<rparr>)"
  proof (intro allI impI)
    fix i assume i: "i < length calls"
    have "\<not> found (snd (assign_all (take i calls) s))"
      using assms(1) by (simp add: assign_all_found)
    from assign_work_block [OF this] assign_all_nth [OF i, of s]
    show "fst (assign_all calls s) ! i
              = (if current_number (snd (assign_all (take i calls) s)) > END_NUMBER then None
                 else Some \<lparr>w_start = current_number (snd (assign_all (take i calls) s)),
                            w_end = min (current_number (snd (assign_all (take i calls) s))
                                          + BLOCK_SIZE_PER_CORE * snd (calls ! i) - 1)
                                        END_NUMBER\<rparr>)"
      by simp
  qed
  have disj: "\<forall>i j. i < j \<and> j < length ?ws \<longrightarrow> block_set (?ws ! i) \<inter> block_set (?ws ! j) = {}"
  proof (intro allI impI)
    fix i j assume ij: "i < j \<and> j < length ?ws"
    then have "i < j" and "j < length (map span ?ws)" and "i < length ?ws" by simp_all
    from chain_disjoint [OF ch this(1,2)] this(3) ij
    show "block_set (?ws ! i) \<inter> block_set (?ws ! j) = {}"
      by (simp add: span_def block_set_def)
  qed
  have "(\<Union>(lo, hi)\<in>set (map span ?ws). {lo..hi}) = {current_number s ..< ?c'}"
    by (rule chain_union [OF ch])
  then have un: "(\<Union>w\<in>set ?ws. block_set w) = {current_number s ..< ?c'}"
    by (simp add: span_def block_set_def)
  have full: "?c' > END_NUMBER \<longrightarrow> (\<Union>w\<in>set ?ws. block_set w) = {current_number s .. END_NUMBER}"
  proof
    assume gt: "?c' > END_NUMBER"
    have le: "current_number s \<le> ?c'" by (rule chain_le [OF ch])
    have mx: "?c' \<le> max (current_number s) (END_NUMBER + 1)" by (rule assign_all_cursor_max)
    have "{current_number s ..< ?c'} = {current_number s .. END_NUMBER}"
      using gt le mx by auto
    with un show "(\<Union>w\<in>set ?ws. block_set w) = {current_number s .. END_NUMBER}" by simp
  qed
  from form disj un full show ?thesis by blast
qed

lemma two_calls_exhaust:
  "fst (assign_all [(1, 20000), (2, 30000)] (initial :: (nat, string) server))
     = [Some \<lparr>w_start = 0, w_end = 3999999999\<rparr>, Some \<lparr>w_start = 4000000000, w_end = 9999999999\<rparr>]"
  "current_number (snd (assign_all [(1, 20000), (2, 30000)] (initial :: (nat, string) server)))
     = 10000000000"
  by (simp_all add: assign_work_def send_message_def initial_def Let_def
        START_NUMBER_def END_NUMBER_def BLOCK_SIZE_PER_CORE_def)

theorem blocks_partition_keyspace_witness:
  "\<not> found (initial :: (nat, string) server)
   \<and> list_all (\<lambda>x. 0 \<le> snd x) [(1::nat, 20000::int), (2, 30000)]
   \<and> fst (assign_all [(1, 20000), (2, 30000)] (initial :: (nat, string) server))
       = [Some \<lparr>w_start = 0, w_end = 3999999999\<rparr>,
          Some \<lparr>w_start = 4000000000, w_end = 9999999999\<rparr>]
   \<and> (\<Union>w\<in>set (issued (fst (assign_all [(1, 20000), (2, 30000)]
          (initial :: (nat, string) server)))). block_set w) = {0 .. 9999999999}"
proof -
  have h1: "\<not> found (initial :: (nat, string) server)" by (simp add: initial_def)
  have h2: "\<forall>x\<in>set [(1::nat, 20000::int), (2, 30000)]. 0 \<le> snd x" by simp
  have h3: "list_all (\<lambda>x. 0 \<le> snd x) [(1::nat, 20000::int), (2, 30000)]" by simp
  have c: "current_number (snd (assign_all [(1, 20000), (2, 30000)]
             (initial :: (nat, string) server))) > END_NUMBER"
    by (simp only: two_calls_exhaust) (simp add: END_NUMBER_def)
  have u: "(\<Union>w\<in>set (issued (fst (assign_all [(1, 20000), (2, 30000)]
          (initial :: (nat, string) server)))). block_set w)
        = {current_number (initial :: (nat, string) server) .. END_NUMBER}"
    using blocks_partition_keyspace [OF h1 h2] c by blast
  have e: "{current_number (initial :: (nat, string) server) .. END_NUMBER} = {0 .. 9999999999}"
    by (simp add: initial_def START_NUMBER_def END_NUMBER_def)
  from u e have "(\<Union>w\<in>set (issued (fst (assign_all [(1, 20000), (2, 30000)]
          (initial :: (nat, string) server)))). block_set w) = {0 .. 9999999999}"
    by (rule trans)
  with h1 h3 two_calls_exhaust(1) show ?thesis by blast
qed

text \<open>Without the restriction on the core counts the claim fails: a worker registered
  with \<open>- 1\<close> cores moves the cursor back, and the block issued first is issued again.\<close>

theorem negative_cores_overlap:
  "fst (assign_all [(1, 1), (2, - 1), (3, 1)] (initial :: (nat, string) server))
     = [Some \<lparr>w_start = 0, w_end = 199999\<rparr>, Some \<lparr>w_start = 200000, w_end = - 1\<rparr>,
        Some \<lparr>w_start = 0, w_end = 199999\<rparr>]
   \<and> block_set (issued (fst (assign_all [(1, 1), (2, - 1), (3, 1)]
         (initial :: (nat, string) server))) ! 0)
     \<inter> block_set (issued (fst (assign_all [(1, 1), (2, - 1), (3, 1)]
         (initial :: (nat, string) server))) ! 2) \<noteq> {}"
proof -
  have e: "fst (assign_all [(1, 1), (2, - 1), (3, 1)] (initial :: (nat, string) server))
     = [Some \<lparr>w_start = 0, w_end = 199999\<rparr>, Some \<lparr>w_start = 200000, w_end = - 1\<rparr>,
        Some \<lparr>w_start = 0, w_end = 199999\<rparr>]"
    by (simp add: assign_work_def send_message_def initial_def Let_def
        START_NUMBER_def END_NUMBER_def BLOCK_SIZE_PER_CORE_def)
  have "(0::int) \<in> block_set \<lparr>w_start = 0, w_end = 199999\<rparr>" by (simp add: block_set_def)
  then have "block_set \<lparr>w_start = 0, w_end = 199999\<rparr> \<inter> block_set \<lparr>w_start = 0, w_end = 199999\<rparr> \<noteq> {}"
    by blast
  then show ?thesis unfolding e by (simp add: issued_def)
qed

subsection \<open>The block of a disconnected worker\<close>

text \<open>C2 (what the code does): let a connection hold a block that lies below the cursor.
  \<^verbatim>\<open>cleanup_client\<close> drops the assignment and leaves the cursor where it is, and no
  block issued by any later sequence of \<^verbatim>\<open>assign_work\<close> calls (core counts not
  negative) shares a candidate with the dropped block: its range is never assigned
  again.\<close>

theorem abandoned_block_never_reissued:
  assumes "assigned_work s c = Some w" and "w_end w < current_number s"
    and "\<forall>x\<in>set calls. 0 \<le> snd x"
  shows "assigned_work (cleanup_client c s) c = None
       \<and> current_number (cleanup_client c s) = current_number s
       \<and> (\<forall>w'\<in>set (issued (fst (assign_all calls (cleanup_client c s)))).
             block_set w' \<inter> block_set w = {})"
proof -
  let ?s = "cleanup_client c s"
  have cur: "current_number ?s = current_number s" by (simp add: cleanup_client_def)
  note ch = assign_all_chain [OF assms(3), of ?s]
  have "\<forall>w'\<in>set (issued (fst (assign_all calls ?s))). block_set w' \<inter> block_set w = {}"
  proof
    fix w' assume "w' \<in> set (issued (fst (assign_all calls ?s)))"
    then have "(w_start w', w_end w') \<in> set (map span (issued (fst (assign_all calls ?s))))"
      by (auto simp add: span_def)
    from chain_member [OF ch this] have "current_number s \<le> w_start w'" using cur by simp
    with assms(2) show "block_set w' \<inter> block_set w = {}" by (auto simp add: block_set_def)
  qed
  then show ?thesis using cur by (simp add: cleanup_client_def)
qed


lemma first_block_out_eval:
  "assigned_work first_block_out 1 = Some \<lparr>w_start = 0, w_end = 199999\<rparr>"
  "current_number first_block_out = 200000"
  "found first_block_out = False"
  by (simp_all add: first_block_out_def run_def register_client_def assign_work_def
        send_message_def initial_def Let_def START_NUMBER_def END_NUMBER_def
        BLOCK_SIZE_PER_CORE_def)

theorem abandoned_block_never_reissued_witness:
  "assigned_work first_block_out 1 = Some \<lparr>w_start = 0, w_end = 199999\<rparr>
   \<and> w_end \<lparr>w_start = 0, w_end = 199999\<rparr> < current_number first_block_out
   \<and> list_all (\<lambda>x. 0 \<le> snd x) [(2::nat, 1::int)]
   \<and> assigned_work (cleanup_client 1 first_block_out) 1 = None
   \<and> current_number (cleanup_client 1 first_block_out) = 200000
   \<and> fst (assign_all [(2, 1)] (cleanup_client 1 first_block_out))
       = [Some \<lparr>w_start = 200000, w_end = 399999\<rparr>]
   \<and> block_set \<lparr>w_start = 200000, w_end = 399999\<rparr>
       \<inter> block_set \<lparr>w_start = 0, w_end = 199999\<rparr> = {}"
proof -
  have h1: "assigned_work first_block_out 1 = Some \<lparr>w_start = 0, w_end = 199999\<rparr>"
    by (rule first_block_out_eval)
  have h2: "w_end \<lparr>w_start = 0, w_end = 199999\<rparr> < current_number first_block_out"
    by (simp add: first_block_out_eval)
  have h3: "\<forall>x\<in>set [(2::nat, 1::int)]. 0 \<le> snd x" by simp
  have h3': "list_all (\<lambda>x. 0 \<le> snd x) [(2::nat, 1::int)]" by simp
  have e: "fst (assign_all [(2, 1)] (cleanup_client 1 first_block_out))
       = [Some \<lparr>w_start = 200000, w_end = 399999\<rparr>]"
    by (simp add: assign_work_def cleanup_client_def send_message_def Let_def
          first_block_out_eval END_NUMBER_def BLOCK_SIZE_PER_CORE_def)
  note t = abandoned_block_never_reissued [OF h1 h2 h3]
  from t have a: "assigned_work (cleanup_client 1 first_block_out) 1 = None" by blast
  from t have b: "current_number (cleanup_client 1 first_block_out) = 200000"
    by (simp only: first_block_out_eval)
  from t have "\<forall>w'\<in>set (issued (fst (assign_all [(2, 1)] (cleanup_client 1 first_block_out)))).
             block_set w' \<inter> block_set \<lparr>w_start = 0, w_end = 199999\<rparr> = {}"
    by blast
  then have d: "block_set \<lparr>w_start = 200000, w_end = 399999\<rparr>
       \<inter> block_set \<lparr>w_start = 0, w_end = 199999\<rparr> = {}"
    unfolding e by (simp add: issued_def)
  from h1 h2 h3' a b e d show ?thesis by blast
qed

subsection \<open>Repeated found reports\<close>

lemma report_when_found:
  assumes "found s"
  shows "handle_client (Received c (Found (Some v))) s
           = s\<lparr>assigned_work := (assigned_work s)(c := None), sent := sent s @ broadcast s\<rparr>"
  using assms by (simp add: handle_found_def notify_all_clients_eq broadcast_def)

lemma report_when_unset:
  assumes "\<not> found s"
  shows "handle_client (Received c (Found (Some v))) s
           = s\<lparr>assigned_work := (assigned_work s)(c := None), found := True,
               found_number := Some v, sent := sent s @ broadcast s\<rparr>"
  using assms by (simp add: handle_found_def notify_all_clients_eq broadcast_def)

lemma reports_Cons: "reports ((c, v) # cvs) = Received c (Found (Some v)) # reports cvs"
  by (simp add: reports_def)

lemma run_reports_found:
  assumes "found s"
  shows "found_number (run (reports cvs) s) = found_number s
       \<and> sent (run (reports cvs) s) = sent s @ concat (replicate (length cvs) (broadcast s))"
  using assms
proof (induction cvs arbitrary: s)
  case Nil
  then show ?case by (simp add: reports_def run_Nil)
next
  case (Cons x cvs)
  obtain c v where x: "x = (c, v)" by (cases x)
  let ?s = "s\<lparr>assigned_work := (assigned_work s)(c := None), sent := sent s @ broadcast s\<rparr>"
  have f: "found ?s" using Cons.prems by simp
  have b: "broadcast ?s = broadcast s" by (simp add: broadcast_def)
  from Cons.IH [OF f] show ?case
    unfolding x reports_Cons run_Cons report_when_found [OF Cons.prems] b by simp
qed

lemma handle_found_value:
  "fst (handle_found c (Some v) s) = None"
  "sent (snd (handle_found c (Some v) s)) = sent s @ broadcast s"
  "clients (snd (handle_found c (Some v) s)) = clients s"
  "handle_client (Received c (Found (Some v))) s = snd (handle_found c (Some v) s)"
  by (simp_all add: handle_found_def notify_all_clients_eq broadcast_def Let_def)

text \<open>C8 (as amended): a found report that carries a value, in whatever state it arrives,
  returns normally, appends one \<open>stop\<close> for every entry of the list of registered clients
  to the log of sent messages and leaves that list alone; so after any sequence of events
  the next such report appends the fan-out of the state reached, whether it is the first
  report or a duplicate. If nothing had been found, the value of this report is the stored
  value after every further sequence of events; if something had been found, the stored
  value stays what it was. An uninterrupted sequence of \<open>n\<close> reports appends \<open>n\<close> copies of
  the fan-out.\<close>

theorem every_report_broadcasts:
  "fst (handle_found c (Some v) s) = None
   \<and> sent (snd (handle_found c (Some v) s)) = sent s @ broadcast s
   \<and> clients (snd (handle_found c (Some v) s)) = clients s
   \<and> sent (run (evs @ [Received c (Found (Some v))]) s)
       = sent (run evs s) @ broadcast (run evs s)
   \<and> (\<not> found s \<longrightarrow>
        (\<forall>evs'. found_number (run evs' (handle_client (Received c (Found (Some v))) s))
                 = Some v))
   \<and> (found s \<longrightarrow>
        (\<forall>evs'. found_number (run evs' (handle_client (Received c (Found (Some v))) s))
                 = found_number s))
   \<and> (\<not> found s \<longrightarrow>
        found_number (run (reports ((c, v) # cvs)) s) = Some v
        \<and> sent (run (reports ((c, v) # cvs)) s)
            = sent s @ concat (replicate (Suc (length cvs)) (broadcast s)))"
proof -
  let ?ev = "Received c (Found (Some v))"
  have a: "fst (handle_found c (Some v) s) = None" by (rule handle_found_value)
  have b: "sent (snd (handle_found c (Some v) s)) = sent s @ broadcast s"
    by (rule handle_found_value)
  have k: "clients (snd (handle_found c (Some v) s)) = clients s" by (rule handle_found_value)
  have "run (evs @ [?ev]) s = handle_client ?ev (run evs s)"
    by (simp add: run_append run_Cons run_Nil)
  then have d: "sent (run (evs @ [?ev]) s) = sent (run evs s) @ broadcast (run evs s)"
    by (simp only: handle_found_value)
  have e: "\<not> found s \<longrightarrow> (\<forall>evs'. found_number (run evs' (handle_client ?ev s)) = Some v)"
  proof (intro impI allI)
    fix evs' assume nf: "\<not> found s"
    have f: "found (handle_client ?ev s)" and n: "found_number (handle_client ?ev s) = Some v"
      unfolding report_when_unset [OF nf] by simp_all
    from found_run [OF f, of evs'] n
    show "found_number (run evs' (handle_client ?ev s)) = Some v" by simp
  qed
  have f: "found s \<longrightarrow> (\<forall>evs'. found_number (run evs' (handle_client ?ev s)) = found_number s)"
  proof (intro impI allI)
    fix evs' assume fs: "found s"
    from found_handle_client [OF fs, of ?ev]
    have f': "found (handle_client ?ev s)"
      and n: "found_number (handle_client ?ev s) = found_number s" by blast+
    from found_run [OF f', of evs'] n
    show "found_number (run evs' (handle_client ?ev s)) = found_number s" by simp
  qed
  have g: "\<not> found s \<longrightarrow>
        found_number (run (reports ((c, v) # cvs)) s) = Some v
        \<and> sent (run (reports ((c, v) # cvs)) s)
            = sent s @ concat (replicate (Suc (length cvs)) (broadcast s))"
  proof
    assume nf: "\<not> found s"
    let ?s = "s\<lparr>assigned_work := (assigned_work s)(c := None), found := True,
               found_number := Some v, sent := sent s @ broadcast s\<rparr>"
    have fs: "found ?s" by simp
    have bs: "broadcast ?s = broadcast s" by (simp add: broadcast_def)
    from run_reports_found [OF fs, of cvs]
    show "found_number (run (reports ((c, v) # cvs)) s) = Some v
        \<and> sent (run (reports ((c, v) # cvs)) s)
            = sent s @ concat (replicate (Suc (length cvs)) (broadcast s))"
      unfolding reports_Cons run_Cons report_when_unset [OF nf] bs by simp
  qed
  show ?thesis
    by (rule conjI [OF a conjI [OF b conjI [OF k conjI [OF d conjI [OF e conjI [OF f g]]]]]])
qed

lemma two_registered_eval:
  "found two_registered = False"
  "sent two_registered = []"
  "broadcast two_registered = [(1, Stop), (2, Stop)]"
  by (simp_all add: two_registered_def run_def register_client_def initial_def broadcast_def)

lemma two_registered_after_close:
  "sent (run [Received 1 (Found (Some ''0000000042'')), Closed 1] two_registered)
     = [(1, Stop), (2, Stop)]"
  "broadcast (run [Received 1 (Found (Some ''0000000042'')), Closed 1] two_registered)
     = [(2, Stop)]"
  by (simp_all add: two_registered_def run_def register_client_def initial_def broadcast_def
        handle_found_def notify_all_clients_eq cleanup_client_def)

theorem every_report_broadcasts_witness:
  "\<not> found two_registered
   \<and> sent (run ([Received 1 (Found (Some ''0000000042'')), Closed 1]
                 @ [Received 2 (Found (Some ''0000000042''))]) two_registered)
       = [(1, Stop), (2, Stop), (2, Stop)]
   \<and> found_number (run [Closed 1, Received 2 (Found (Some ''0000000007''))]
        (handle_client (Received 1 (Found (Some ''0000000042''))) two_registered))
       = Some ''0000000042''
   \<and> sent (run (reports [(1, ''0000000042''), (2, ''0000000042''), (2, ''0000000007'')])
        two_registered)
       = [(1, Stop), (2, Stop), (1, Stop), (2, Stop), (1, Stop), (2, Stop)]"
proof -
  have h: "\<not> found two_registered" by (simp add: two_registered_eval)
  note t1 = every_report_broadcasts [of 2 "''0000000042''" two_registered
                    "[Received 1 (Found (Some ''0000000042'')), Closed 1]"]
  note t2 = every_report_broadcasts [of 1 "''0000000042''" two_registered _
                    "[(2, ''0000000042''), (2, ''0000000007'')]"]
  note d = t1 [THEN conjunct2, THEN conjunct2, THEN conjunct2, THEN conjunct1]
  note e = t2 [THEN conjunct2, THEN conjunct2, THEN conjunct2, THEN conjunct2, THEN conjunct1]
  note g = t2 [THEN conjunct2, THEN conjunct2, THEN conjunct2, THEN conjunct2, THEN conjunct2,
               THEN conjunct2]
  have r1: "sent (run ([Received 1 (Found (Some ''0000000042'')), Closed 1]
                 @ [Received 2 (Found (Some ''0000000042''))]) two_registered)
       = [(1, Stop), (2, Stop), (2, Stop)]"
    using d by (simp only: two_registered_after_close) simp
  from mp [OF e h]
  have r2: "found_number (run [Closed 1, Received 2 (Found (Some ''0000000007''))]
        (handle_client (Received 1 (Found (Some ''0000000042''))) two_registered))
       = Some ''0000000042''" by blast
  from mp [OF g h]
  have "sent (run (reports [(1, ''0000000042''), (2, ''0000000042''), (2, ''0000000007'')])
        two_registered)
       = sent two_registered @ concat (replicate (Suc (length
           [(2::nat, ''0000000042''), (2, ''0000000007'')])) (broadcast two_registered))"
    by (rule conjunct2)
  then have r3: "sent (run (reports [(1, ''0000000042''), (2, ''0000000042''),
        (2, ''0000000007'')]) two_registered)
       = [(1, Stop), (2, Stop), (1, Stop), (2, Stop), (1, Stop), (2, Stop)]"
    by (simp add: two_registered_eval)
  show ?thesis by (rule conjI [OF h conjI [OF r1 conjI [OF r2 r3]]])
qed

text \<open>Two workers report the same value: the value of the first is kept, and the fan-out
  is written twice, not once.\<close>

theorem duplicate_report_broadcasts_again:
  "found_number (run (reports [(1, ''0000000042''), (2, ''0000000042'')]) two_registered)
     = Some ''0000000042''
   \<and> sent (run (reports [(1, ''0000000042''), (2, ''0000000042'')]) two_registered)
       = [(1, Stop), (2, Stop), (1, Stop), (2, Stop)]
   \<and> sent (run (reports [(1, ''0000000042''), (2, ''0000000042'')]) two_registered)
       \<noteq> broadcast two_registered"
  by (simp add: two_registered_def reports_def broadcast_def run_def register_client_def initial_def
        handle_found_def notify_all_clients_eq)

section \<open>Properties of the worker\<close>

subsection \<open>The format of a candidate\<close>

lemma lt_10_cases:
  "(d::nat) < 10 \<Longrightarrow> d = 0 \<or> d = 1 \<or> d = 2 \<or> d = 3 \<or> d = 4 \<or> d = 5 \<or> d = 6 \<or> d = 7 \<or> d = 8 \<or> d = 9"
  by arith

lemma digit_val_digit_char: "d < 10 \<Longrightarrow> digit_val (digit_char d) = d"
  using lt_10_cases [of d] by (auto simp add: digit_val_def digit_char_def)

lemma digit_char_is_digit: "d < 10 \<Longrightarrow> digit_char d \<in> set ''0123456789''"
  using lt_10_cases [of d] by (auto simp add: digit_char_def)

lemma decimal_not_Nil: "decimal n \<noteq> []"
  by (subst decimal.simps) simp

lemma decimal_digits: "set (decimal n) \<subseteq> set ''0123456789''"
proof (induction n rule: decimal.induct)
  case (1 n)
  show ?case
  proof (cases "n < 10")
    case True
    then show ?thesis using digit_char_is_digit [of n] by (subst decimal.simps) simp
  next
    case False
    have "n mod 10 < 10" by simp
    from digit_char_is_digit [OF this] "1.IH" [OF False] False show ?thesis
      by (subst decimal.simps) simp
  qed
qed

lemma digits_value_snoc: "digits_value (s @ [c]) = 10 * digits_value s + digit_val c"
  by (simp add: digits_value_def)

lemma digits_value_decimal: "digits_value (decimal n) = n"
proof (induction n rule: decimal.induct)
  case (1 n)
  show ?case
  proof (cases "n < 10")
    case True
    then show ?thesis
      by (subst decimal.simps) (simp add: digits_value_def digit_val_digit_char)
  next
    case False
    have "digits_value (decimal (n div 10) @ [digit_char (n mod 10)])
            = 10 * (n div 10) + n mod 10"
      using "1.IH" [OF False] by (simp add: digits_value_snoc digit_val_digit_char)
    then show ?thesis using False by (subst decimal.simps) simp
  qed
qed

lemma length_decimal: "n < 10 ^ Suc k \<Longrightarrow> length (decimal n) \<le> Suc k"
proof (induction k arbitrary: n)
  case 0
  then show ?case by (subst decimal.simps) simp
next
  case (Suc k)
  show ?case
  proof (cases "n < 10")
    case True
    then show ?thesis by (subst decimal.simps) simp
  next
    case False
    have "n div 10 < 10 ^ Suc k" using Suc.prems by (simp add: less_mult_imp_div_less)
    from Suc.IH [OF this] False show ?thesis by (subst decimal.simps) simp
  qed
qed

lemma digits_value_zeros: "digits_value (replicate k CHR ''0'' @ s) = digits_value s"
proof -
  have "foldl (\<lambda>a c. 10 * a + digit_val c) 0 (replicate k CHR ''0'') = 0"
    by (induction k) (simp_all add: digit_val_def)
  then show ?thesis by (simp add: digits_value_def)
qed

lemma format_010d_keyspace:
  assumes "0 \<le> n" and "n < 10 ^ 10"
  shows "length (format_010d n) = 10"
    and "set (format_010d n) \<subseteq> set ''0123456789''"
    and "digits_value (format_010d n) = nat n"
proof -
  have "nat n < 10 ^ Suc 9" using assms by (simp add: nat_less_iff)
  from length_decimal [OF this] have l: "length (decimal (nat n)) \<le> 10" by simp
  then show "length (format_010d n) = 10" using assms(1) by (simp add: format_010d_def)
  show "set (format_010d n) \<subseteq> set ''0123456789''"
    using assms(1) decimal_digits [of "nat n"] by (auto simp add: format_010d_def)
  show "digits_value (format_010d n) = nat n"
    using assms(1) by (simp add: format_010d_def digits_value_zeros digits_value_decimal)
qed

lemma format_010d_not_Nil: "format_010d n \<noteq> []"
  by (simp add: format_010d_def decimal_not_Nil)

lemma replicate_numeral: "replicate (numeral k) x = x # replicate (pred_numeral k) x"
  by (simp add: numeral_eq_Suc)

lemma format_010d_42: "format_010d 42 = ''0000000042''"
  by (simp add: format_010d_def decimal.simps digit_char_def replicate_numeral)

lemma upper_char_digit: "c \<in> set ''0123456789'' \<Longrightarrow> upper_char c = c"
  by (simp, elim disjE) (simp_all add: upper_char_def)

lemma upper_digits: "set s \<subseteq> set ''0123456789'' \<Longrightarrow> upper s = s"
proof -
  assume d: "set s \<subseteq> set ''0123456789''"
  have "\<And>c. c \<in> set s \<Longrightarrow> upper_char c = c"
    using d upper_char_digit by blast
  then show ?thesis unfolding upper_def by (simp add: map_idI)
qed

lemma upper_format_010d: "0 \<le> n \<Longrightarrow> n < 10 ^ 10 \<Longrightarrow> upper (format_010d n) = format_010d n"
  by (rule upper_digits) (rule format_010d_keyspace)

lemma format_010d_inj:
  assumes "0 \<le> a" "a < 10 ^ 10" "0 \<le> b" "b < 10 ^ 10" "format_010d a = format_010d b"
  shows "a = b"
proof -
  have "nat a = digits_value (format_010d a)"
    using format_010d_keyspace(3) [OF assms(1,2)] by simp
  also have "\<dots> = digits_value (format_010d b)" by (simp only: assms(5))
  also have "\<dots> = nat b" by (rule format_010d_keyspace(3) [OF assms(3,4)])
  finally show ?thesis using assms(1,3) by simp
qed

subsection \<open>The search task\<close>

lemma worker_None_iff:
  "worker H a e t = None \<longleftrightarrow> (\<forall>n. a \<le> n \<and> n \<le> e \<longrightarrow> upper (H (format_010d n)) \<noteq> t)"
proof (induction H a e t rule: worker.induct)
  case (1 H a e t)
  show ?case
  proof (cases "a \<le> e")
    case False
    then show ?thesis by (subst worker.simps) auto
  next
    case le: True
    show ?thesis
    proof (cases "upper (H (format_010d a)) = t")
      case True
      then show ?thesis using le by (subst worker.simps) auto
    next
      case False
      have "worker H a e t = worker H (a + 1) e t"
        using le False by (subst worker.simps) simp
      also have "\<dots> = None \<longleftrightarrow> (\<forall>n. a + 1 \<le> n \<and> n \<le> e \<longrightarrow> upper (H (format_010d n)) \<noteq> t)"
        using "1.IH" [OF le refl refl False] .
      also have "\<dots> \<longleftrightarrow> (\<forall>n. a \<le> n \<and> n \<le> e \<longrightarrow> upper (H (format_010d n)) \<noteq> t)"
      proof
        assume h: "\<forall>n. a + 1 \<le> n \<and> n \<le> e \<longrightarrow> upper (H (format_010d n)) \<noteq> t"
        show "\<forall>n. a \<le> n \<and> n \<le> e \<longrightarrow> upper (H (format_010d n)) \<noteq> t"
        proof (intro allI impI)
          fix n assume n: "a \<le> n \<and> n \<le> e"
          show "upper (H (format_010d n)) \<noteq> t"
          proof (cases "n = a")
            case True
            then show ?thesis using False by simp
          next
            case False
            then have "a + 1 \<le> n \<and> n \<le> e" using n by simp
            then show ?thesis using h by blast
          qed
        qed
      next
        assume h: "\<forall>n. a \<le> n \<and> n \<le> e \<longrightarrow> upper (H (format_010d n)) \<noteq> t"
        show "\<forall>n. a + 1 \<le> n \<and> n \<le> e \<longrightarrow> upper (H (format_010d n)) \<noteq> t"
          using h by simp
      qed
      finally show ?thesis .
    qed
  qed
qed

lemma worker_Some:
  "worker H a e t = Some v \<Longrightarrow>
     \<exists>n. a \<le> n \<and> n \<le> e \<and> v = format_010d n \<and> upper (H (format_010d n)) = t
         \<and> (\<forall>m. a \<le> m \<and> m < n \<longrightarrow> upper (H (format_010d m)) \<noteq> t)"
proof (induction H a e t rule: worker.induct)
  case (1 H a e t)
  have le: "a \<le> e" using "1.prems" by (subst (asm) worker.simps) (simp split: if_splits)
  show ?case
  proof (cases "upper (H (format_010d a)) = t")
    case True
    then have "v = format_010d a" using "1.prems" le by (subst (asm) worker.simps) simp
    with True le show ?thesis by (intro exI [of _ a]) auto
  next
    case False
    have "worker H (a + 1) e t = Some v"
      using "1.prems" le False by (subst (asm) worker.simps) simp
    from "1.IH" [OF le refl refl False this]
    obtain n where n: "a + 1 \<le> n" "n \<le> e" "v = format_010d n" "upper (H (format_010d n)) = t"
      "\<forall>m. a + 1 \<le> m \<and> m < n \<longrightarrow> upper (H (format_010d m)) \<noteq> t" by blast
    have "\<forall>m. a \<le> m \<and> m < n \<longrightarrow> upper (H (format_010d m)) \<noteq> t"
    proof (intro allI impI)
      fix m assume m: "a \<le> m \<and> m < n"
      show "upper (H (format_010d m)) \<noteq> t"
      proof (cases "m = a")
        case True
        then show ?thesis using False by simp
      next
        case False
        then have "a + 1 \<le> m \<and> m < n" using m by simp
        then show ?thesis using n(5) by blast
      qed
    qed
    with n show ?thesis by (intro exI [of _ n]) simp
  qed
qed

lemma worker_first:
  assumes "a \<le> n" and "n \<le> e" and "upper (H (format_010d n)) = t"
    and "\<forall>m. a \<le> m \<and> m < n \<longrightarrow> upper (H (format_010d m)) \<noteq> t"
  shows "worker H a e t = Some (format_010d n)"
proof -
  have "\<exists>k. a \<le> k \<and> k \<le> e \<and> upper (H (format_010d k)) = t" using assms(1-3) by blast
  then have "worker H a e t \<noteq> None" unfolding worker_None_iff by blast
  then obtain v where v: "worker H a e t = Some v" by blast
  from worker_Some [OF v] obtain k where k: "a \<le> k" "k \<le> e" "v = format_010d k"
    "upper (H (format_010d k)) = t"
    "\<forall>m. a \<le> m \<and> m < k \<longrightarrow> upper (H (format_010d m)) \<noteq> t" by blast
  have lo: "\<not> k < n"
  proof
    assume "k < n"
    with k(1) have "a \<le> k \<and> k < n" by simp
    with assms(4) have "upper (H (format_010d k)) \<noteq> t" by blast
    with k(4) show False by simp
  qed
  have hi: "\<not> n < k"
  proof
    assume "n < k"
    with assms(1) have "a \<le> n \<and> n < k" by simp
    with k(5) have "upper (H (format_010d n)) \<noteq> t" by blast
    with assms(3) show False by simp
  qed
  from lo hi have "k = n" by simp
  with v k(3) show ?thesis by simp
qed

subsection \<open>Splitting a block over the local processes\<close>

lemma ranges_chain:
  assumes "0 \<le> pp" and "start + (n - 1) * pp \<le> endn + 1"
  shows "i \<le> n - 1 \<Longrightarrow>
         chain (start + i * pp)
           (map (\<lambda>i. (start + i * pp, if i < n - 1 then start + (i + 1) * pp - 1 else endn))
              [i .. n - 1])
           (endn + 1)"
proof (induction "nat (n - 1 - i)" arbitrary: i)
  case 0
  then have i: "i = n - 1" by simp
  have "[i .. n - 1] = [i]" unfolding i by simp
  then show ?case using assms(2) by (simp add: i)
next
  case (Suc k)
  then have lt: "i < n - 1" by simp
  then have up: "[i .. n - 1] = i # [i + 1 .. n - 1]" by (simp add: upto_rec1)
  have k: "k = nat (n - 1 - (i + 1))" using Suc.hyps(2) by simp
  have le: "i + 1 \<le> n - 1" using lt by simp
  note ih = Suc.hyps(1) [OF k le]
  have step: "start + (i + 1) * pp - 1 + 1 = start + (i + 1) * pp" by simp
  have grow: "start + i * pp \<le> start + (i + 1) * pp - 1 + 1"
    using assms(1) by (simp add: algebra_simps)
  show ?case unfolding up using lt ih grow by (simp only: list.map chain.simps step if_True)
qed

lemma per_process_bounds:
  assumes "start \<le> endn" and "1 \<le> (n::int)"
  shows "0 \<le> (endn - start + 1) div n"
    and "start + (n - 1) * ((endn - start + 1) div n) \<le> endn + 1"
proof -
  let ?total = "endn - start + 1"
  let ?pp = "?total div n"
  have n0: "0 < n" using assms(2) by simp
  show pp0: "0 \<le> ?pp" using assms(1) n0 by (simp add: pos_imp_zdiv_nonneg_iff)
  have "n * ?pp + ?total mod n = ?total" by (rule mult_div_mod_eq)
  moreover have "0 \<le> ?total mod n" using n0 by (rule pos_mod_sign)
  ultimately have "n * ?pp \<le> ?total" by linarith
  moreover have "(n - 1) * ?pp = n * ?pp - ?pp" by (simp add: algebra_simps)
  ultimately show "start + (n - 1) * ?pp \<le> endn + 1" using pp0 by simp
qed

lemma process_ranges_example:
  "process_ranges 0 99 4 = Inr [(0, 24), (25, 49), (50, 74), (75, 99)]"
  "process_ranges 0 10 3 = Inr [(0, 2), (3, 5), (6, 10)]"
  by (simp_all add: process_ranges_def Let_def upto_rec1)

text \<open>C6: for a block with \<open>start \<le> end\<close> and at least one process, the split of
  \<^verbatim>\<open>process_work\<close> succeeds and yields one sub-range per process, the \<open>i\<close>-th starting at
  \<open>start + i * (total div cores)\<close> and ending one before the next start, the last ending at
  \<open>end\<close>. The first starts at \<open>start\<close>, consecutive sub-ranges are adjacent, any two are
  disjoint, their union is exactly the block, and the last one holds
  \<open>total div cores + total mod cores\<close> candidates: it absorbs the remainder. The block
  \<open>[0, 99]\<close> with four processes gives \<open>[0,24], [25,49], [50,74], [75,99]\<close>.\<close>

theorem split_covers_block:
  assumes "start \<le> endn" and "1 \<le> ncores"
  shows "(\<exists>rs. process_ranges start endn ncores = Inr rs
           \<and> int (length rs) = ncores
           \<and> (\<forall>i<length rs.
                 rs ! i = (start + int i * ((endn - start + 1) div ncores),
                           if int i < ncores - 1
                           then start + (int i + 1) * ((endn - start + 1) div ncores) - 1
                           else endn))
           \<and> fst (rs ! 0) = start \<and> snd (last rs) = endn
           \<and> snd (last rs) - fst (last rs) + 1
               = (endn - start + 1) div ncores + (endn - start + 1) mod ncores
           \<and> (\<forall>i. Suc i < length rs \<longrightarrow> fst (rs ! Suc i) = snd (rs ! i) + 1)
           \<and> (\<forall>i j. i < j \<and> j < length rs \<longrightarrow>
                 {fst (rs ! i) .. snd (rs ! i)} \<inter> {fst (rs ! j) .. snd (rs ! j)} = {})
           \<and> (\<Union>(lo, hi)\<in>set rs. {lo .. hi}) = {start .. endn})
       \<and> process_ranges 0 99 4 = Inr [(0, 24), (25, 49), (50, 74), (75, 99)]"
proof -
  define pp where "pp = (endn - start + 1) div ncores"
  define f where "f = (\<lambda>i. (start + i * pp,
                             if i < ncores - 1 then start + (i + 1) * pp - 1 else endn))"
  define rs where "rs = map f [0 .. ncores - 1]"
  have n0: "ncores \<noteq> 0" using assms(2) by simp
  have pr: "process_ranges start endn ncores = Inr rs"
    using n0 by (simp add: process_ranges_def Let_def rs_def f_def pp_def)
  have len: "int (length rs) = ncores" using assms(2) by (simp add: rs_def)
  have nth: "rs ! i = f (int i)" if "i < length rs" for i
  proof -
    have "int i < ncores" using that len by simp
    then have "0 + int i \<le> ncores - 1" by simp
    then have "[0 .. ncores - 1] ! i = 0 + int i" by (rule nth_upto)
    moreover have "i < length [0 .. ncores - 1]" using that by (simp add: rs_def)
    ultimately show ?thesis by (simp add: rs_def)
  qed
  have form: "\<forall>i<length rs.
                 rs ! i = (start + int i * ((endn - start + 1) div ncores),
                           if int i < ncores - 1
                           then start + (int i + 1) * ((endn - start + 1) div ncores) - 1
                           else endn)"
    using nth by (simp add: f_def pp_def)
  have "0 < int (length rs)" using len assms(2) by linarith
  then have pos: "0 < length rs" by simp
  have first: "fst (rs ! 0) = start" using nth [OF pos] by (simp add: f_def)
  have ne: "rs \<noteq> []" using pos by simp
  have li: "int (length rs - 1) = ncores - 1" using len pos by linarith
  have "length rs - 1 < length rs" using pos by simp
  from nth [OF this] have "rs ! (length rs - 1) = f (ncores - 1)" by (simp only: li)
  then have lastf: "last rs = f (ncores - 1)" by (simp only: last_conv_nth [OF ne])
  have lst: "snd (last rs) = endn" unfolding lastf by (simp add: f_def)
  have md: "ncores * pp + (endn - start + 1) mod ncores = endn - start + 1"
    unfolding pp_def by (rule mult_div_mod_eq)
  have "(ncores - 1) * pp = ncores * pp - pp" by (simp add: algebra_simps)
  with md have "endn - (start + (ncores - 1) * pp) + 1 = pp + (endn - start + 1) mod ncores"
    by linarith
  then have rem: "snd (last rs) - fst (last rs) + 1
               = (endn - start + 1) div ncores + (endn - start + 1) mod ncores"
    unfolding lastf by (simp add: f_def pp_def)
  have adj: "\<forall>i. Suc i < length rs \<longrightarrow> fst (rs ! Suc i) = snd (rs ! i) + 1"
  proof (intro allI impI)
    fix i assume s: "Suc i < length rs"
    then have i: "i < length rs" by simp
    have "int (Suc i) < ncores" using s len by linarith
    then have lt: "int i < ncores - 1" by simp
    have a: "fst (rs ! Suc i) = start + (int i + 1) * pp"
      using nth [OF s] by (simp add: f_def)
    have b: "snd (rs ! i) = start + (int i + 1) * pp - 1"
      using nth [OF i] lt by (simp add: f_def)
    show "fst (rs ! Suc i) = snd (rs ! i) + 1" unfolding a b by simp
  qed
  have ch0: "chain (start + 0 * pp) (map f [0 .. ncores - 1]) (endn + 1)"
    unfolding f_def pp_def
    by (rule ranges_chain [OF per_process_bounds [OF assms]]) (use assms(2) in simp)
  then have ch: "chain start rs (endn + 1)" by (simp add: rs_def)
  have disj: "\<forall>i j. i < j \<and> j < length rs \<longrightarrow>
                 {fst (rs ! i) .. snd (rs ! i)} \<inter> {fst (rs ! j) .. snd (rs ! j)} = {}"
  proof (intro allI impI)
    fix i j assume "i < j \<and> j < length rs"
    then have "i < j" and "j < length rs" by simp_all
    then show "{fst (rs ! i) .. snd (rs ! i)} \<inter> {fst (rs ! j) .. snd (rs ! j)} = {}"
      by (rule chain_disjoint [OF ch])
  qed
  have "(\<Union>(lo, hi)\<in>set rs. {lo .. hi}) = {start ..< endn + 1}" by (rule chain_union [OF ch])
  moreover have "{start ..< endn + 1} = {start .. endn}" by auto
  ultimately have un: "(\<Union>(lo, hi)\<in>set rs. {lo .. hi}) = {start .. endn}" by simp
  have ex: "\<exists>rs. process_ranges start endn ncores = Inr rs
           \<and> int (length rs) = ncores
           \<and> (\<forall>i<length rs.
                 rs ! i = (start + int i * ((endn - start + 1) div ncores),
                           if int i < ncores - 1
                           then start + (int i + 1) * ((endn - start + 1) div ncores) - 1
                           else endn))
           \<and> fst (rs ! 0) = start \<and> snd (last rs) = endn
           \<and> snd (last rs) - fst (last rs) + 1
               = (endn - start + 1) div ncores + (endn - start + 1) mod ncores
           \<and> (\<forall>i. Suc i < length rs \<longrightarrow> fst (rs ! Suc i) = snd (rs ! i) + 1)
           \<and> (\<forall>i j. i < j \<and> j < length rs \<longrightarrow>
                 {fst (rs ! i) .. snd (rs ! i)} \<inter> {fst (rs ! j) .. snd (rs ! j)} = {})
           \<and> (\<Union>(lo, hi)\<in>set rs. {lo .. hi}) = {start .. endn}"
    using pr len form first lst rem adj disj un by (intro exI [of _ rs] conjI)
  show ?thesis by (rule conjI [OF ex process_ranges_example(1)])
qed

theorem split_covers_block_witness:
  "(0::int) \<le> 10 \<and> (1::int) \<le> 3
   \<and> process_ranges 0 10 3 = Inr [(0, 2), (3, 5), (6, 10)]
   \<and> (\<Union>(lo, hi)\<in>set [(0, 2), (3, 5), (6, 10 :: int)]. {lo .. hi}) = {0 .. 10}"
proof -
  have h1: "(0::int) \<le> 10" and h2: "(1::int) \<le> 3" by simp_all
  from split_covers_block [OF h1 h2, THEN conjunct1] obtain rs where
    rs: "process_ranges 0 10 3 = Inr rs" and un: "(\<Union>(lo, hi)\<in>set rs. {lo .. hi}) = {0 .. 10}"
    by blast
  from rs have e: "rs = [(0, 2), (3, 5), (6, 10)]" by (simp add: process_ranges_example(2))
  have u: "(\<Union>(lo, hi)\<in>set [(0, 2), (3, 5), (6, 10 :: int)]. {lo .. hi}) = {0 .. 10}"
    using un unfolding e .
  show ?thesis by (rule conjI [OF h1 conjI [OF h2 conjI [OF process_ranges_example(2) u]]])
qed

subsection \<open>The pool of search tasks\<close>





lemma upper_target: "upper ''ec9c0f7edcc18a98b1f31853b1813301'' = TARGET_HASH"
  by (simp add: upper_def upper_char_def TARGET_HASH_def)

lemma upper_other: "upper ''d41d8cd98f00b204e9800998ecf8427e'' \<noteq> TARGET_HASH"
  by (simp add: upper_def upper_char_def TARGET_HASH_def)


lemma example_digest_42:
  "upper (example_digest (format_010d 42)) = TARGET_HASH"
  "example_digest (format_010d 42) = ''ec9c0f7edcc18a98b1f31853b1813301''"
  by (simp_all add: example_digest_def format_010d_42 upper_target)

lemma example_digest_other:
  assumes "0 \<le> m" and "m < 10 ^ 10" and "m \<noteq> 42"
  shows "upper (example_digest (format_010d m)) \<noteq> TARGET_HASH"
proof -
  have k: "(0::int) \<le> 42" "(42::int) < 10 ^ 10" by simp_all
  have "format_010d m \<noteq> format_010d 42"
    using format_010d_inj [OF assms(1,2) k] assms(3) by blast
  then have "format_010d m \<noteq> ''0000000042''" by (simp add: format_010d_42)
  then have "example_digest (format_010d m) = ''d41d8cd98f00b204e9800998ecf8427e''"
    by (simp add: example_digest_def)
  then show ?thesis using upper_other by simp
qed



subsection \<open>The value reported upward\<close>

text \<open>C10: when a search task reports, the value is the formatted string of the matching
  candidate \<open>n\<close>, a string and not the number: for \<open>n\<close> in the keyspace it has ten
  characters, all decimal digits, and reads back as \<open>n\<close> (this holds of the format of every
  candidate of the keyspace). The client sends that string in its \<open>found\<close> message, and a
  coordinator that has found nothing yet stores it in \<open>found_number\<close>. For the candidate 42
  the string is \<open>0000000042\<close>.\<close>

theorem reported_value_is_formatted_string:
  assumes "worker H start endn t = Some v" and "\<not> found s"
  shows "(\<exists>n. start \<le> n \<and> n \<le> endn \<and> upper (H (format_010d n)) = t \<and> v = format_010d n
            \<and> (0 \<le> n \<and> n < 10 ^ 10 \<longrightarrow>
                 length v = 10 \<and> set v \<subseteq> set ''0123456789'' \<and> digits_value v = nat n)
            \<and> found_message (Some v) = Some (Found (Some (format_010d n)))
            \<and> found_number (handle_client (Received c (Found (Some (format_010d n)))) s)
                = Some (format_010d n))
       \<and> (\<forall>n. 0 \<le> n \<and> n < 10 ^ 10 \<longrightarrow>
             length (format_010d n) = 10 \<and> set (format_010d n) \<subseteq> set ''0123456789''
             \<and> digits_value (format_010d n) = nat n)
       \<and> format_010d 42 = ''0000000042''"
proof -
  from worker_Some [OF assms(1)] obtain n where n: "start \<le> n" "n \<le> endn"
    "v = format_010d n" "upper (H (format_010d n)) = t" by blast
  have fm: "found_message (Some v) = Some (Found (Some (format_010d n)))"
    unfolding n(3) by (simp add: found_message_def format_010d_not_Nil)
  have fn: "found_number (handle_client (Received c (Found (Some (format_010d n)))) s)
                = Some (format_010d n)"
    using assms(2) by (simp add: handle_found_def notify_all_clients_eq)
  have ks: "0 \<le> n \<and> n < 10 ^ 10 \<longrightarrow>
                 length v = 10 \<and> set v \<subseteq> set ''0123456789'' \<and> digits_value v = nat n"
  proof
    assume "0 \<le> n \<and> n < 10 ^ 10"
    then have "0 \<le> n" and "n < 10 ^ 10" by (rule conjunct1, rule conjunct2)
    from format_010d_keyspace [OF this]
    show "length v = 10 \<and> set v \<subseteq> set ''0123456789'' \<and> digits_value v = nat n"
      unfolding n(3) by (intro conjI)
  qed
  have ex: "\<exists>n. start \<le> n \<and> n \<le> endn \<and> upper (H (format_010d n)) = t \<and> v = format_010d n
            \<and> (0 \<le> n \<and> n < 10 ^ 10 \<longrightarrow>
                 length v = 10 \<and> set v \<subseteq> set ''0123456789'' \<and> digits_value v = nat n)
            \<and> found_message (Some v) = Some (Found (Some (format_010d n)))
            \<and> found_number (handle_client (Received c (Found (Some (format_010d n)))) s)
                = Some (format_010d n)"
    using n ks fm fn by (intro exI [of _ n] conjI)
  have all: "\<forall>n. 0 \<le> n \<and> n < 10 ^ 10 \<longrightarrow>
             length (format_010d n) = 10 \<and> set (format_010d n) \<subseteq> set ''0123456789''
             \<and> digits_value (format_010d n) = nat n"
  proof (intro allI impI)
    fix n :: int assume "0 \<le> n \<and> n < 10 ^ 10"
    then have "0 \<le> n" and "n < 10 ^ 10" by (rule conjunct1, rule conjunct2)
    from format_010d_keyspace [OF this]
    show "length (format_010d n) = 10 \<and> set (format_010d n) \<subseteq> set ''0123456789''
          \<and> digits_value (format_010d n) = nat n"
      by (intro conjI)
  qed
  show ?thesis by (rule conjI [OF ex conjI [OF all format_010d_42]])
qed

lemma worker_40_45_digest:
  "worker example_digest 40 45 TARGET_HASH = Some (format_010d 42)"
proof -
  have "\<forall>m. 40 \<le> m \<and> m < 42 \<longrightarrow> upper (example_digest (format_010d m)) \<noteq> TARGET_HASH"
  proof (intro allI impI)
    fix m :: int assume "40 \<le> m \<and> m < 42"
    then have "0 \<le> m" "m < 10 ^ 10" "m \<noteq> 42" by simp_all
    then show "upper (example_digest (format_010d m)) \<noteq> TARGET_HASH"
      by (rule example_digest_other)
  qed
  then show ?thesis by (intro worker_first example_digest_42(1)) simp_all
qed

theorem reported_value_is_formatted_string_witness:
  "worker example_digest 40 45 TARGET_HASH = Some (format_010d 42)
   \<and> \<not> found (initial :: (nat, string) server)
   \<and> format_010d 42 = ''0000000042''
   \<and> length (format_010d 42) = 10
   \<and> digits_value (format_010d 42) = 42
   \<and> found_message (Some (format_010d 42)) = Some (Found (Some ''0000000042''))
   \<and> found_number (handle_client (Received 1 (Found (Some ''0000000042'')))
        (initial :: (nat, string) server)) = Some ''0000000042''"
proof -
  have h2: "\<not> found (initial :: (nat, string) server)" by (simp add: initial_def)
  note t1 = reported_value_is_formatted_string [OF worker_40_45_digest h2, of 1]
  note tall = t1 [THEN conjunct2, THEN conjunct1]
  note t42 = t1 [THEN conjunct2, THEN conjunct2]
  have "(0::int) \<le> 42 \<and> (42::int) < 10 ^ 10" by simp
  with tall have ks: "length (format_010d 42) = 10 \<and> set (format_010d 42) \<subseteq> set ''0123456789''
             \<and> digits_value (format_010d 42) = nat 42" by blast
  then have r1: "length (format_010d 42) = 10" by (rule conjunct1)
  from ks have "digits_value (format_010d 42) = nat 42" by blast
  then have r2: "digits_value (format_010d 42) = 42" by simp
  from t1 [THEN conjunct1]
  obtain n where n: "format_010d 42 = format_010d n"
    "found_message (Some (format_010d 42)) = Some (Found (Some (format_010d n)))"
    "found_number (handle_client (Received 1 (Found (Some (format_010d n))))
        (initial :: (nat, string) server)) = Some (format_010d n)" by blast
  have e: "format_010d n = ''0000000042''" using n(1) t42 by simp
  have r3: "found_message (Some (format_010d 42)) = Some (Found (Some ''0000000042''))"
    using n(2) unfolding e .
  have r4: "found_number (handle_client (Received 1 (Found (Some ''0000000042'')))
        (initial :: (nat, string) server)) = Some ''0000000042''"
    using n(3) unfolding e .
  show ?thesis
    by (rule conjI [OF worker_40_45_digest conjI [OF h2 conjI [OF t42 conjI [OF r1
          conjI [OF r2 conjI [OF r3 r4]]]]]])
qed

end
